theory Spec2Isabelle
  imports Main
begin

section \<open>Characters and strings\<close>

text \<open>
  Paths are JavaScript strings, sequences of code units. Where a function
  looks at particular characters (separators, letters, digits) its strings are
  modelled as \<open>string\<close>. \<open>commonBaseIndex\<close> only compares code units with each
  other, so it is modelled on lists over any type of code unit, and the
  language's \<open>toLowerCase\<close>, which follows the Unicode case mapping and may
  change the length of a string, is a parameter there.
\<close>

abbreviation slash :: char where
  "slash \<equiv> CHR ''/''"

abbreviation backslash :: char where
  "backslash \<equiv> CHR 0x5C"

definition isUpper :: "char \<Rightarrow> bool" where
  "isUpper c = (c \<in> set ''ABCDEFGHIJKLMNOPQRSTUVWXYZ'')"

definition isLower :: "char \<Rightarrow> bool" where
  "isLower c = (c \<in> set ''abcdefghijklmnopqrstuvwxyz'')"

definition isDigit :: "char \<Rightarrow> bool" where
  "isDigit c = (c \<in> set ''0123456789'')"

text \<open>
  The lower case of a single letter A to Z, as \<open>d.toLowerCase()\<close> gives it for
  the drive letter that the pattern \<open>[A-Z]\<close> has matched; other characters are
  kept.
\<close>

definition toLowerChar :: "char \<Rightarrow> char" where
  "toLowerChar c =
     (case map_of (zip ''ABCDEFGHIJKLMNOPQRSTUVWXYZ'' ''abcdefghijklmnopqrstuvwxyz'') c of
        Some l \<Rightarrow> l
      | None \<Rightarrow> c)"


text \<open>\<open>s.charCodeAt(0) === slash\<close>; on the empty string \<open>charCodeAt\<close> is NaN.\<close>

definition startsWithSlash :: "string \<Rightarrow> bool" where
  "startsWithSlash s = (case s of [] \<Rightarrow> False | c # _ \<Rightarrow> c = slash)"

text \<open>\<open>s.charCodeAt(s.length - 1) === slash\<close>, NaN again on the empty string.\<close>

definition endsWithSlash :: "string \<Rightarrow> bool" where
  "endsWithSlash s = (s \<noteq> [] \<and> last s = slash)"

text \<open>\<open>s.split('/')\<close>: the empty string splits into one empty piece.\<close>

fun split :: "char \<Rightarrow> string \<Rightarrow> string list" where
  "split d [] = [[]]"
| "split d (c # cs) =
     (if c = d then [] # split d cs
      else (c # hd (split d cs)) # tl (split d cs))"

section \<open>Path normalization\<close>

text \<open>
  \<open>pathNormalizeRegex = /\\/g\<close>: every backslash is replaced by a forward slash.
\<close>

definition pathNormalizeReplace :: "string \<Rightarrow> string" where
  "pathNormalizeReplace p = map (\<lambda>c. if c = backslash then slash else c) p"

text \<open>
  \<open>driveLetterNormalizeRegex = /(?<=^\/?)([A-Z])(?=:\/)/\<close>. The look-behind
  admits a match at offset 0, or at offset 1 after a leading slash; the look-ahead
  asks for \<open>:/\<close> right after the letter. \<open>driveAt s\<close> says that letter and
  look-ahead match at the head of \<open>s\<close>. The pattern has no \<open>g\<close> flag, so
  \<open>replace\<close> rewrites the first match only, to its lower case.
\<close>

definition driveAt :: "string \<Rightarrow> bool" where
  "driveAt s =
     (case s of
        d # c1 # c2 # _ \<Rightarrow> isUpper d \<and> c1 = CHR '':'' \<and> c2 = slash
      | _ \<Rightarrow> False)"

definition driveLetterNormalize :: "string \<Rightarrow> string" where
  "driveLetterNormalize s =
     (if driveAt s then toLowerChar (hd s) # tl s
      else
        (case s of
           [] \<Rightarrow> s
         | c # r \<Rightarrow> if c = slash \<and> driveAt r then c # toLowerChar (hd r) # tl r else s))"

text \<open>
  \<open>normalizePath\<close>. The platform flag \<open>isWindows\<close> comes from the environment
  module and is a parameter here.
\<close>

definition normalizePath :: "bool \<Rightarrow> string \<Rightarrow> string" where
  "normalizePath isWindows p =
     (if p = [] then p
      else
        let p1 = pathNormalizeReplace p;
            p2 = (if endsWithSlash p1 then butlast p1 else p1)
        in if isWindows then driveLetterNormalize p2 else p2)"

text \<open>
  A string ends in two separators when its last two characters are each a slash
  or a backslash.
\<close>

definition isSeparator :: "char \<Rightarrow> bool" where
  "isSeparator c = (c = slash \<or> c = backslash)"

definition endsWithTwoSeparators :: "string \<Rightarrow> bool" where
  "endsWithTwoSeparators p =
     (case rev p of a # b # _ \<Rightarrow> isSeparator a \<and> isSeparator b | _ \<Rightarrow> False)"

section \<open>URI schemes\<close>

definition isLetter :: "char \<Rightarrow> bool" where
  "isLetter c = (isUpper c \<or> isLower c)"

text \<open>The class \<open>\w\<close>: letters, digits and the underscore.\<close>

definition isWordChar :: "char \<Rightarrow> bool" where
  "isWordChar c = (isLetter c \<or> isDigit c \<or> c = CHR ''_'')"

text \<open>The class \<open>[\w+.-]\<close>.\<close>

definition isSchemeChar :: "char \<Rightarrow> bool" where
  "isSchemeChar c = (isWordChar c \<or> c = CHR ''+'' \<or> c = CHR ''.'' \<or> c = CHR ''-'')"

text \<open>
  \<open>hasSchemeRegex = /^([a-zA-Z][\w+.-]+):/\<close>, anchored at the start. The
  greedy run of class characters can never swallow the colon, which is outside
  the class, so the pattern matches exactly when the longest run after the
  first letter is non-empty and is followed by a colon. \<open>exec\<close> yields the
  first group, the text before the colon; \<open>None\<close> is \<open>null\<close>.
\<close>

definition hasSchemeRegex_exec :: "string \<Rightarrow> string option" where
  "hasSchemeRegex_exec p =
     (case p of
        [] \<Rightarrow> None
      | c # cs \<Rightarrow>
          if isLetter c then
            (let run = takeWhile isSchemeChar cs
             in if run \<noteq> [] \<and>
                   (case dropWhile isSchemeChar cs of [] \<Rightarrow> False | x # _ \<Rightarrow> x = CHR '':'')
                then Some (c # run)
                else None)
          else None)"

text \<open>\<open>hasSchemeRegex.exec(path)?.[1]\<close>; \<open>None\<close> is \<open>undefined\<close>.\<close>

definition getScheme :: "string \<Rightarrow> string option" where
  "getScheme p = hasSchemeRegex_exec p"

text \<open>\<open>hasSchemeRegex.test(path)\<close>.\<close>

definition maybeUri :: "string \<Rightarrow> bool" where
  "maybeUri p = (hasSchemeRegex_exec p \<noteq> None)"

text \<open>
  \<open>isAbsolute\<close>. The operating system's own test, imported from the platform's
  path module, is the parameter \<open>path_isAbsolute\<close>.
\<close>

definition isAbsolute :: "(string \<Rightarrow> bool) \<Rightarrow> string \<Rightarrow> bool" where
  "isAbsolute path_isAbsolute p = (\<not> maybeUri p \<and> path_isAbsolute p)"

text \<open>
  The specification's wording of a leading scheme token: a letter, then
  characters that are word characters, plus, minus or dot, then a colon.
\<close>

definition hasLeadingSchemeToken :: "string \<Rightarrow> bool" where
  "hasLeadingSchemeToken p =
     (\<exists>c w rest. p = c # w @ CHR '':'' # rest \<and> isLetter c \<and> w \<noteq> [] \<and> list_all isSchemeChar w)"

section \<open>URIs\<close>

text \<open>
  The editor's URI objects, as far as this module reads them: \<open>scheme\<close>,
  \<open>authority\<close> and \<open>path\<close>. A value handed to the path functions is a string
  or a URI.
\<close>

record uri =
  scheme :: string
  authority :: string
  path :: string

datatype pathOrUri = Str string | Uri uri

section \<open>Overlay prefix\<close>

text \<open>The class \<open>[/|\\]\<close>.\<close>

definition isVslsSeparator :: "char \<Rightarrow> bool" where
  "isVslsSeparator c = (c = slash \<or> c = CHR ''|'' \<or> c = backslash)"

text \<open>The group \<open>(?:[/|\\]|$)\<close>: a separator follows, or the input ends.\<close>

definition vslsBoundary :: "string \<Rightarrow> bool" where
  "vslsBoundary r = (case r of [] \<Rightarrow> True | x # _ \<Rightarrow> isVslsSeparator x)"

text \<open>
  \<open>vslsHasPrefixRegex = /^[/|\\]~(?:\d+?|external)(?:[/|\\]|$)/\<close>. The lazy
  \<open>\d+?\<close> is extended digit by digit until the boundary group matches, which
  can only happen after the last digit of the run.
\<close>

definition vslsHasPrefixRegex_test :: "string \<Rightarrow> bool" where
  "vslsHasPrefixRegex_test s =
     (case s of
        c0 # c1 # r \<Rightarrow>
          isVslsSeparator c0 \<and> c1 = CHR ''~'' \<and>
          ((takeWhile isDigit r \<noteq> [] \<and> vslsBoundary (dropWhile isDigit r)) \<or>
           (take 8 r = ''external'' \<and> vslsBoundary (drop 8 r)))
      | _ \<Rightarrow> False)"

definition hasVslsPrefix :: "string \<Rightarrow> bool" where
  "hasVslsPrefix p = vslsHasPrefixRegex_test p"

text \<open>The template \<open>`/~0${p.charCodeAt(0) === slash ? p : `/${p}`}`\<close>.\<close>

definition vslsPrefixed :: "string \<Rightarrow> string" where
  "vslsPrefixed p = ''/~0'' @ (if startsWithSlash p then p else ''/'' @ p)"

text \<open>
  \<open>addVslsPrefixIfNeeded\<close>. The editor's \<open>Uri.parse\<close> and the \<open>fsPath\<close> of a URI
  are parameters; \<open>Uri_parse\<close> gives \<open>None\<close> where the parser throws, and then so
  does the function.
\<close>

definition addVslsPrefixIfNeeded ::
  "bool \<Rightarrow> (string \<Rightarrow> uri option) \<Rightarrow> (uri \<Rightarrow> string) \<Rightarrow> pathOrUri \<Rightarrow> pathOrUri option" where
  "addVslsPrefixIfNeeded isWindows Uri_parse fsPath pathOrUri =
     (case (case pathOrUri of
              Str s \<Rightarrow> if maybeUri s then map_option Uri (Uri_parse s) else Some pathOrUri
            | Uri _ \<Rightarrow> Some pathOrUri) of
        None \<Rightarrow> None
      | Some (Str s) \<Rightarrow>
          if hasVslsPrefix s then Some (Str s)
          else Some (Str (vslsPrefixed (normalizePath isWindows s)))
      | Some (Uri u) \<Rightarrow>
          if hasVslsPrefix (fsPath u) then Some (Uri u)
          else Some (Uri (u\<lparr>path := vslsPrefixed (normalizePath isWindows (fsPath u))\<rparr>)))"

text \<open>
  What the specification asks of the result: it is a string, and
  \<open>hasVslsPrefix\<close> holds of it.
\<close>

definition isPrefixedString :: "pathOrUri option \<Rightarrow> bool" where
  "isPrefixedString r = (case r of Some (Str q) \<Rightarrow> hasVslsPrefix q | _ \<Rightarrow> False)"

section \<open>Common base of two strings\<close>










section \<open>Descendants and children\<close>

text \<open>\<open>if (x.charCodeAt(0) !== slash) x = `/${x}`\<close>.\<close>

definition leadingSlash :: "string \<Rightarrow> string" where
  "leadingSlash s = (if startsWithSlash s then s else slash # s)"

text \<open>\<open>b.charCodeAt(b.length - 1) === slash ? b : `${b}/`\<close>.\<close>

definition trailingSlash :: "string \<Rightarrow> string" where
  "trailingSlash b = (if endsWithSlash b then b else b @ [slash])"

definition startsWith :: "string \<Rightarrow> string \<Rightarrow> bool" where
  "startsWith s pre = (take (length pre) s = pre)"

text \<open>\<open>typeof pathOrUri === 'string' ? pathOrUri : pathOrUri.path\<close>.\<close>

definition pathOf :: "pathOrUri \<Rightarrow> string" where
  "pathOf x = (case x of Str p \<Rightarrow> p | Uri u \<Rightarrow> path u)"

definition isDescendent :: "bool \<Rightarrow> pathOrUri \<Rightarrow> pathOrUri \<Rightarrow> bool" where
  "isDescendent isWindows pathOrUri base =
     (let base1 = (case base of
                     Str b \<Rightarrow> Str (leadingSlash (normalizePath isWindows b))
                   | Uri _ \<Rightarrow> base);
          p1 = (case pathOrUri of
                  Str p \<Rightarrow> Str (leadingSlash (normalizePath isWindows p))
                | Uri _ \<Rightarrow> pathOrUri)
      in case base1 of
           Str b \<Rightarrow> length b = 1 \<or> startsWith (pathOf p1) (trailingSlash b)
         | Uri bu \<Rightarrow>
             (case p1 of
                Str p \<Rightarrow> length (path bu) = 1 \<or> startsWith p (trailingSlash (path bu))
              | Uri u \<Rightarrow>
                  scheme bu = scheme u \<and> authority bu = authority u \<and>
                  (length (path bu) = 1 \<or> startsWith (path u) (trailingSlash (path bu)))))"

text \<open>
  The specification's wording. The path that is compared is a string argument
  after normalization and leading-slash enforcement, or the path of a URI
  argument; scheme and authority count when both arguments are URIs; and the
  path is a descendant when the base is the root \<open>/\<close> or the path starts
  with the base followed by a separator.
\<close>

definition comparedPath :: "bool \<Rightarrow> pathOrUri \<Rightarrow> string" where
  "comparedPath isWindows x =
     (case x of Str s \<Rightarrow> leadingSlash (normalizePath isWindows s) | Uri u \<Rightarrow> path u)"

definition sameOrigin :: "pathOrUri \<Rightarrow> pathOrUri \<Rightarrow> bool" where
  "sameOrigin x base =
     (case (x, base) of
        (Uri u, Uri bu) \<Rightarrow> scheme bu = scheme u \<and> authority bu = authority u
      | _ \<Rightarrow> True)"

definition isDescendent_spec :: "bool \<Rightarrow> pathOrUri \<Rightarrow> pathOrUri \<Rightarrow> bool" where
  "isDescendent_spec isWindows x base =
     (sameOrigin x base \<and>
      (comparedPath isWindows base = ''/'' \<or>
       startsWith (comparedPath isWindows x) (comparedPath isWindows base @ ''/'')))"

text \<open>
  \<open>x.substr(b.length + (b.charCodeAt(b.length - 1) === slash ? 0 : 1))\<close>: the
  rest of \<open>x\<close> from that offset, empty when the offset is past the end.
\<close>

definition beyond :: "string \<Rightarrow> string \<Rightarrow> string" where
  "beyond b x = drop (length b + (if endsWithSlash b then 0 else 1)) x"

definition isChild :: "bool \<Rightarrow> pathOrUri \<Rightarrow> pathOrUri \<Rightarrow> bool" where
  "isChild isWindows pathOrUri base =
     (case base of
        Str b \<Rightarrow>
          (let b' = leadingSlash b
           in isDescendent isWindows pathOrUri (Str b') \<and>
              length (split slash (beyond b' (pathOf pathOrUri))) = 1)
      | Uri bu \<Rightarrow>
          isDescendent isWindows pathOrUri base \<and>
          length (split slash (beyond (path bu) (pathOf pathOrUri))) = 1)"

text \<open>
  The specification's wording of "exactly one path segment beyond the base":
  the segments of a path are the pieces between its slashes, not counting the
  leading slash, and the root has none.
\<close>

definition pathSegments :: "string \<Rightarrow> string list" where
  "pathSegments s =
     (let r = (if startsWithSlash s then tl s else s)
      in if r = [] then [] else split slash r)"

definition oneSegmentBeyond :: "string \<Rightarrow> string \<Rightarrow> bool" where
  "oneSegmentBeyond p base = (length (pathSegments p) = Suc (length (pathSegments base)))"

section \<open>Caches and the sub-provider proxy\<close>

text \<open>The union type \<open>GitCaches\<close> and the text of each of its members.\<close>

datatype GitCaches =
  Branches | Contributors | Providers | Remotes | Stashes | Status | Tags | Worktrees

fun cacheName :: "GitCaches \<Rightarrow> string" where
  "cacheName Branches = ''branches''"
| "cacheName Contributors = ''contributors''"
| "cacheName Providers = ''providers''"
| "cacheName Remotes = ''remotes''"
| "cacheName Stashes = ''stashes''"
| "cacheName Status = ''status''"
| "cacheName Tags = ''tags''"
| "cacheName Worktrees = ''worktrees''"

definition gitRepositoryCacheKeys :: "GitCaches set" where
  "gitRepositoryCacheKeys = {Branches, Remotes}"

text \<open>
  A sub-provider object maps property names to members: a method, which takes
  its arguments and the state of the world and gives a result and a new state;
  a plain value; or nothing. A method is taken with \<open>this\<close> already bound to
  the object it is read from, which is what both \<open>target.m(...)\<close> and
  \<open>value.call(target, ...)\<close> do.
\<close>

datatype 'v jsValue = JString string | JOther 'v

datatype ('v, 'r, 's) member =
  Method "'v jsValue list \<Rightarrow> 's \<Rightarrow> 'r \<times> 's"
| Property 'r
| Undefined

type_synonym ('v, 'r, 's) subProvider = "string \<Rightarrow> ('v, 'r, 's) member"

text \<open>
  The \<open>get\<close> trap of the proxy: a function member is wrapped so that \<open>rp\<close>
  comes first; any other member is handed out as it is.
\<close>

definition createSubProviderProxyForRepo ::
  "('v, 'r, 's) subProvider \<Rightarrow> string \<Rightarrow> ('v, 'r, 's) subProvider" where
  "createSubProviderProxyForRepo target rp =
     (\<lambda>prop. case target prop of
        Method value \<Rightarrow> Method (\<lambda>args. value (JString rp # args))
      | Property v \<Rightarrow> Property v
      | Undefined \<Rightarrow> Undefined)"

text \<open>Calling a member: a call on something that is no function is a type error.\<close>

datatype 'r outcome = Returned 'r | TypeError

definition invoke :: "('v, 'r, 's) member \<Rightarrow> 'v jsValue list \<Rightarrow> 's \<Rightarrow> 'r outcome \<times> 's" where
  "invoke m args s =
     (case m of
        Method f \<Rightarrow> (Returned (fst (f args s)), snd (f args s))
      | Property _ \<Rightarrow> (TypeError, s)
      | Undefined \<Rightarrow> (TypeError, s))"

section \<open>Facts about normalization\<close>

lemma toLowerChar_not_upper: "isUpper c \<Longrightarrow> \<not> isUpper (toLowerChar c)"
  by (auto simp: isUpper_def toLowerChar_def)

lemma toLowerChar_upper_plain:
  "isUpper c \<Longrightarrow> toLowerChar c \<noteq> slash \<and> toLowerChar c \<noteq> backslash"
  by (auto simp: isUpper_def toLowerChar_def)

lemma not_upper_slash: "\<not> isUpper slash"
  by (simp add: isUpper_def)

lemma driveAt_Cons:
  "driveAt s \<Longrightarrow> \<exists>d r. s = d # CHR '':'' # slash # r \<and> isUpper d"
  by (auto simp: driveAt_def split: list.splits)

lemma driveLetterNormalize_idem:
  "driveLetterNormalize (driveLetterNormalize s) = driveLetterNormalize s"
proof (cases "driveAt s")
  case True
  then obtain d r where s: "s = d # CHR '':'' # slash # r" and d: "isUpper d"
    using driveAt_Cons by blast
  have "driveLetterNormalize s = toLowerChar d # CHR '':'' # slash # r"
    using True s by (simp add: driveLetterNormalize_def)
  moreover have "\<not> driveAt (toLowerChar d # CHR '':'' # slash # r)"
    using d by (simp add: driveAt_def toLowerChar_not_upper)
  moreover have "toLowerChar d \<noteq> slash"
    using d toLowerChar_upper_plain by blast
  ultimately show ?thesis
    by (simp add: driveLetterNormalize_def)
next
  case False
  show ?thesis
  proof (cases s)
    case Nil
    then show ?thesis by (simp add: driveLetterNormalize_def driveAt_def)
  next
    case (Cons c r)
    show ?thesis
    proof (cases "c = slash \<and> driveAt r")
      case True
      then obtain d r' where r: "r = d # CHR '':'' # slash # r'" and d: "isUpper d"
        using driveAt_Cons by blast
      have n: "driveLetterNormalize s = slash # toLowerChar d # CHR '':'' # slash # r'"
        using False True Cons r by (simp add: driveLetterNormalize_def)
      have "\<not> driveAt (slash # toLowerChar d # CHR '':'' # slash # r')"
        by (simp add: driveAt_def not_upper_slash)
      moreover have "\<not> driveAt (toLowerChar d # CHR '':'' # slash # r')"
        using d by (simp add: driveAt_def toLowerChar_not_upper)
      ultimately show ?thesis
        unfolding n by (simp add: driveLetterNormalize_def)
    next
      case no: False
      then have "driveLetterNormalize s = s"
        using False Cons by (auto simp: driveLetterNormalize_def)
      then show ?thesis by simp
    qed
  qed
qed

lemma driveLetterNormalize_length [simp]:
  "length (driveLetterNormalize s) = length s"
  by (auto simp: driveLetterNormalize_def driveAt_def split: list.splits)

lemma driveLetterNormalize_Nil_iff [simp]:
  "driveLetterNormalize s = [] \<longleftrightarrow> s = []"
  using driveLetterNormalize_length [of s] by (metis length_0_conv)

lemma driveLetterNormalize_last:
  "s \<noteq> [] \<Longrightarrow> last (driveLetterNormalize s) = last s"
  by (auto simp: driveLetterNormalize_def driveAt_def split: list.splits)

lemma driveLetterNormalize_endsWithSlash [simp]:
  "endsWithSlash (driveLetterNormalize s) = endsWithSlash s"
  by (cases "s = []") (simp_all add: endsWithSlash_def driveLetterNormalize_last)

lemma driveLetterNormalize_no_backslash:
  assumes "backslash \<notin> set s"
  shows "backslash \<notin> set (driveLetterNormalize s)"
proof (cases "driveAt s")
  case True
  then obtain d r where s: "s = d # CHR '':'' # slash # r" and d: "isUpper d"
    using driveAt_Cons by blast
  have "driveLetterNormalize s = toLowerChar d # CHR '':'' # slash # r"
    using True s by (simp add: driveLetterNormalize_def)
  moreover have "toLowerChar d \<noteq> backslash"
    using d toLowerChar_upper_plain by blast
  ultimately show ?thesis
    using assms s by auto
next
  case False
  show ?thesis
  proof (cases s)
    case Nil
    then show ?thesis by (simp add: driveLetterNormalize_def driveAt_def)
  next
    case (Cons c r)
    show ?thesis
    proof (cases "c = slash \<and> driveAt r")
      case True
      then obtain d r' where r: "r = d # CHR '':'' # slash # r'" and d: "isUpper d"
        using driveAt_Cons by blast
      have "driveLetterNormalize s = slash # toLowerChar d # CHR '':'' # slash # r'"
        using False True Cons r by (simp add: driveLetterNormalize_def)
      moreover have "toLowerChar d \<noteq> backslash"
        using d toLowerChar_upper_plain by blast
      ultimately show ?thesis
        using assms Cons r by auto
    next
      case no: False
      then have "driveLetterNormalize s = s"
        using False Cons by (auto simp: driveLetterNormalize_def)
      then show ?thesis using assms by simp
    qed
  qed
qed

lemma pathNormalizeReplace_no_backslash [simp]:
  "backslash \<notin> set (pathNormalizeReplace p)"
  by (auto simp: pathNormalizeReplace_def)

lemma pathNormalizeReplace_id:
  "backslash \<notin> set p \<Longrightarrow> pathNormalizeReplace p = p"
  by (induction p) (auto simp: pathNormalizeReplace_def)

lemma pathNormalizeReplace_Nil_iff [simp]:
  "pathNormalizeReplace p = [] \<longleftrightarrow> p = []"
  by (simp add: pathNormalizeReplace_def)

lemma normalizePath_no_backslash:
  "backslash \<notin> set (normalizePath w p)"
proof (cases "p = []")
  case True
  then show ?thesis by (simp add: normalizePath_def)
next
  case False
  have "backslash \<notin> set (butlast (pathNormalizeReplace p))"
    using pathNormalizeReplace_no_backslash in_set_butlastD by metis
  then show ?thesis
    using False
    by (simp add: normalizePath_def Let_def driveLetterNormalize_no_backslash)
qed

text \<open>A string that is free of backslashes and of a trailing slash is a fixed point.\<close>

lemma normalizePath_fixed:
  assumes "backslash \<notin> set q" and "\<not> endsWithSlash q"
    and "w \<Longrightarrow> driveLetterNormalize q = q"
  shows "normalizePath w q = q"
  using assms by (simp add: normalizePath_def Let_def pathNormalizeReplace_id)

lemma butlast_snoc2: "butlast (xs @ [b, c]) = xs @ [b]"
  by (simp add: butlast_append)

lemma endsWithSlash_butlast:
  assumes "endsWithSlash (butlast (pathNormalizeReplace p))"
    and "endsWithSlash (pathNormalizeReplace p)"
  shows "endsWithTwoSeparators p"
proof (cases p rule: rev_cases)
  case Nil
  then show ?thesis
    using assms by (simp add: endsWithSlash_def pathNormalizeReplace_def)
next
  case (snoc p1 a)
  show ?thesis
  proof (cases p1 rule: rev_cases)
    case Nil
    then show ?thesis
      using assms snoc by (simp add: endsWithSlash_def pathNormalizeReplace_def)
  next
    case inner: (snoc p2 b)
    have p: "p = p2 @ [b, a]"
      using snoc inner by simp
    have "pathNormalizeReplace p =
        pathNormalizeReplace p2 @
          [if b = backslash then slash else b, if a = backslash then slash else a]"
      unfolding p by (simp add: pathNormalizeReplace_def)
    then have "(if a = backslash then slash else a) = slash"
      and "(if b = backslash then slash else b) = slash"
      using assms by (simp_all add: endsWithSlash_def butlast_snoc2)
    then have "isSeparator a" and "isSeparator b"
      by (auto simp: isSeparator_def split: if_splits)
    then show ?thesis
      unfolding p by (simp add: endsWithTwoSeparators_def)
  qed
qed

lemma normalizePath_endsWithSlash:
  "endsWithSlash (normalizePath w p) \<Longrightarrow> endsWithTwoSeparators p"
proof (cases "p = []")
  case True
  assume "endsWithSlash (normalizePath w p)"
  then show ?thesis using True by (simp add: normalizePath_def endsWithSlash_def)
next
  case False
  assume e: "endsWithSlash (normalizePath w p)"
  let ?p1 = "pathNormalizeReplace p"
  have "endsWithSlash (if endsWithSlash ?p1 then butlast ?p1 else ?p1)"
    using e False by (cases w) (simp_all add: normalizePath_def Let_def)
  then have "endsWithSlash ?p1 \<and> endsWithSlash (butlast ?p1)"
    by (auto split: if_splits)
  then show ?thesis
    using endsWithSlash_butlast by blast
qed

section \<open>Claims about normalization\<close>

text \<open>
  C6. On a drive-letter platform the path \<open>C:\Users\Bob\repo\\<close> (written
  \<open>"C:\\Users\\Bob\\repo\\"\<close> in the source language) normalizes to
  \<open>c:/Users/Bob/repo\<close>: backslashes become slashes, the one trailing
  separator goes, the drive letter is lowered.
\<close>

theorem normalizePath_windows_scenario:
  "normalizePath True
     (''C:'' @ [backslash] @ ''Users'' @ [backslash] @ ''Bob'' @ [backslash] @ ''repo''
        @ [backslash])
   = ''c:/Users/Bob/repo''"
  by (simp add: normalizePath_def pathNormalizeReplace_def endsWithSlash_def
      driveLetterNormalize_def driveAt_def isUpper_def toLowerChar_def)

text \<open>
  C1, as stated: normalizing twice is the same as normalizing once, for every
  path. It fails on a path that ends in two separators: only one of them is
  stripped each time, so \<open>a//\<close> goes to \<open>a/\<close> and then to \<open>a\<close>.
\<close>

theorem normalizePath_not_idempotent:
  "normalizePath False (normalizePath False ''a//'') \<noteq> normalizePath False ''a//''"
  by (simp add: normalizePath_def pathNormalizeReplace_def endsWithSlash_def)

text \<open>
  C1, amended: for every path that does not end in two separators, on either
  platform, normalizing twice is the same as normalizing once.
\<close>

theorem normalizePath_idempotent:
  assumes "\<not> endsWithTwoSeparators p"
  shows "normalizePath w (normalizePath w p) = normalizePath w p"
proof (rule normalizePath_fixed)
  show "backslash \<notin> set (normalizePath w p)"
    by (rule normalizePath_no_backslash)
  show "\<not> endsWithSlash (normalizePath w p)"
    using assms normalizePath_endsWithSlash by blast
  show "driveLetterNormalize (normalizePath w p) = normalizePath w p" if "w"
    using that by (simp add: normalizePath_def Let_def driveLetterNormalize_idem)
qed

theorem normalizePath_idempotent_witness:
  "\<not> endsWithTwoSeparators (''C:'' @ [backslash] @ ''Users'' @ [backslash])
   \<and> normalizePath True (normalizePath True (''C:'' @ [backslash] @ ''Users'' @ [backslash]))
     = normalizePath True (''C:'' @ [backslash] @ ''Users'' @ [backslash])
   \<and> normalizePath True (''C:'' @ [backslash] @ ''Users'' @ [backslash]) = ''c:/Users''"
proof -
  have h: "\<not> endsWithTwoSeparators (''C:'' @ [backslash] @ ''Users'' @ [backslash])"
    by (simp add: endsWithTwoSeparators_def isSeparator_def)
  have v: "normalizePath True (''C:'' @ [backslash] @ ''Users'' @ [backslash]) = ''c:/Users''"
    by (simp add: normalizePath_def pathNormalizeReplace_def endsWithSlash_def
        driveLetterNormalize_def driveAt_def isUpper_def toLowerChar_def)
  show ?thesis
    using h v normalizePath_idempotent [OF h, of True] by simp
qed

section \<open>Claims about URI schemes\<close>

lemma colon_not_schemeChar: "\<not> isSchemeChar (CHR '':'')"
  by (simp add: isSchemeChar_def isWordChar_def isLetter_def isUpper_def isLower_def isDigit_def)

lemma hasSchemeRegex_exec_SomeD:
  assumes "hasSchemeRegex_exec p = Some s"
  shows "\<exists>c w rest. s = c # w \<and> p = c # w @ CHR '':'' # rest \<and> isLetter c \<and> w \<noteq> []
           \<and> list_all isSchemeChar w"
proof (cases p)
  case Nil
  then show ?thesis using assms by (simp add: hasSchemeRegex_exec_def)
next
  case (Cons c cs)
  let ?run = "takeWhile isSchemeChar cs"
  let ?rest = "dropWhile isSchemeChar cs"
  from assms Cons have c: "isLetter c" and run: "?run \<noteq> []" and s: "s = c # ?run"
    and r: "(case ?rest of [] \<Rightarrow> False | x # _ \<Rightarrow> x = CHR '':'')"
    by (auto simp: hasSchemeRegex_exec_def Let_def split: if_splits)
  from r obtain rest where rest: "?rest = CHR '':'' # rest"
    by (auto split: list.splits)
  have "cs = ?run @ ?rest" by simp
  then have "p = c # ?run @ CHR '':'' # rest"
    using Cons rest by simp
  moreover have "list_all isSchemeChar ?run"
    by (auto simp: list_all_iff dest: set_takeWhileD)
  ultimately show ?thesis
    using c run s by blast
qed

lemma hasSchemeRegex_exec_token:
  assumes "isLetter c" and "w \<noteq> []" and "list_all isSchemeChar w"
  shows "hasSchemeRegex_exec (c # w @ CHR '':'' # rest) = Some (c # w)"
proof -
  have all: "\<And>x. x \<in> set w \<Longrightarrow> isSchemeChar x"
    using assms(3) by (simp add: list_all_iff)
  have "takeWhile isSchemeChar (w @ CHR '':'' # rest) = w"
    using all by (simp add: colon_not_schemeChar)
  moreover have "dropWhile isSchemeChar (w @ CHR '':'' # rest) = CHR '':'' # rest"
    using all by (simp add: colon_not_schemeChar)
  ultimately show ?thesis
    using assms(1,2) by (simp add: hasSchemeRegex_exec_def)
qed

lemma maybeUri_iff_token: "maybeUri p \<longleftrightarrow> hasLeadingSchemeToken p"
proof
  assume "maybeUri p"
  then obtain s where "hasSchemeRegex_exec p = Some s"
    by (auto simp: maybeUri_def)
  then show "hasLeadingSchemeToken p"
    using hasSchemeRegex_exec_SomeD unfolding hasLeadingSchemeToken_def by blast
next
  assume "hasLeadingSchemeToken p"
  then obtain c w rest where "p = c # w @ CHR '':'' # rest" "isLetter c" "w \<noteq> []"
    "list_all isSchemeChar w"
    unfolding hasLeadingSchemeToken_def by blast
  then show "maybeUri p"
    by (simp add: maybeUri_def hasSchemeRegex_exec_token)
qed

lemma hasSchemeRegex_exec_drive: "hasSchemeRegex_exec (d # CHR '':'' # rest) = None"
  by (simp add: hasSchemeRegex_exec_def colon_not_schemeChar)

text \<open>
  C8. \<open>isAbsolute\<close> holds of a string exactly when the string has no leading
  scheme token (a letter, then word, plus, minus or dot characters, then a
  colon) and the operating system takes it for absolute; so a string with a
  leading scheme token is never absolute.
\<close>

theorem isAbsolute_iff:
  "(isAbsolute path_isAbsolute p \<longleftrightarrow> \<not> hasLeadingSchemeToken p \<and> path_isAbsolute p)
   \<and> (hasLeadingSchemeToken p \<longrightarrow> \<not> isAbsolute path_isAbsolute p)"
  by (simp add: isAbsolute_def maybeUri_iff_token)

theorem isAbsolute_iff_witness:
  "hasLeadingSchemeToken ''file:///a''
   \<and> \<not> isAbsolute startsWithSlash ''file:///a''
   \<and> \<not> hasLeadingSchemeToken ''/a'' \<and> startsWithSlash ''/a''
   \<and> isAbsolute startsWithSlash ''/a''"
proof -
  have t: "hasLeadingSchemeToken ''file:///a''"
    unfolding hasLeadingSchemeToken_def
    by (rule exI [of _ "CHR ''f''"], rule exI [of _ "''ile''"], rule exI [of _ "''///a''"])
       (simp add: isLetter_def isLower_def isSchemeChar_def isWordChar_def)
  have n: "\<not> hasLeadingSchemeToken ''/a''"
    by (simp add: hasLeadingSchemeToken_def isLetter_def isUpper_def isLower_def)
  have a: "startsWithSlash ''/a''"
    by (simp add: startsWithSlash_def)
  show ?thesis
    using t n a isAbsolute_iff [of startsWithSlash "''file:///a''"]
      isAbsolute_iff [of startsWithSlash "''/a''"]
    by simp
qed

text \<open>
  C10. \<open>getScheme\<close> yields a scheme exactly when \<open>maybeUri\<close> holds; a scheme
  that is found has at least two characters and is the text before the first
  colon, so \<open>maybeUri\<close> needs two characters before the colon too. The drive
  reference \<open>c:\<close> and every path beginning with \<open>C:/\<close> have no scheme, and for
  such a path \<open>isAbsolute\<close> is the verdict of the operating system.
\<close>

theorem getScheme_iff_maybeUri:
  "(getScheme p \<noteq> None \<longleftrightarrow> maybeUri p)
   \<and> (\<forall>s. getScheme p = Some s \<longrightarrow> 2 \<le> length s \<and> (\<exists>rest. p = s @ CHR '':'' # rest))
   \<and> (maybeUri p \<longrightarrow> 2 \<le> length (takeWhile (\<lambda>c. c \<noteq> CHR '':'') p))
   \<and> getScheme ''c:'' = None \<and> \<not> maybeUri ''c:''
   \<and> getScheme (''C:/'' @ rest) = None \<and> \<not> maybeUri (''C:/'' @ rest)
   \<and> getScheme (d # CHR '':'' # rest) = None \<and> \<not> maybeUri (d # CHR '':'' # rest)
   \<and> isAbsolute path_isAbsolute (d # CHR '':'' # rest) = path_isAbsolute (d # CHR '':'' # rest)"
proof -
  have 1: "getScheme p \<noteq> None \<longleftrightarrow> maybeUri p"
    by (simp add: getScheme_def maybeUri_def)
  have 2: "2 \<le> length s \<and> (\<exists>rest. p = s @ CHR '':'' # rest)" if "getScheme p = Some s" for s
  proof -
    from that obtain c w rest where "s = c # w" "p = c # w @ CHR '':'' # rest" "w \<noteq> []"
      using hasSchemeRegex_exec_SomeD unfolding getScheme_def by blast
    then show ?thesis
      by (cases w) auto
  qed
  have 3: "2 \<le> length (takeWhile (\<lambda>c. c \<noteq> CHR '':'') p)" if "maybeUri p"
  proof -
    from that obtain s where s: "getScheme p = Some s"
      by (auto simp: maybeUri_def getScheme_def)
    then obtain rest where p: "p = s @ CHR '':'' # rest" and l: "2 \<le> length s"
      using 2 by blast
    from s obtain c w where "s = c # w" "isLetter c" "list_all isSchemeChar w"
      using hasSchemeRegex_exec_SomeD unfolding getScheme_def by blast
    then have "\<forall>x\<in>set s. x \<noteq> CHR '':''"
      using colon_not_schemeChar
      by (auto simp: list_all_iff isLetter_def isUpper_def isLower_def)
    then have "takeWhile (\<lambda>c. c \<noteq> CHR '':'') p = s"
      unfolding p by (simp add: takeWhile_tail)
    then show ?thesis using l by simp
  qed
  have 4: "hasSchemeRegex_exec ''c:'' = None" "hasSchemeRegex_exec (''C:/'' @ rest) = None"
    "hasSchemeRegex_exec (d # CHR '':'' # rest) = None"
    using hasSchemeRegex_exec_drive [of "CHR ''c''" "[]"]
      hasSchemeRegex_exec_drive [of "CHR ''C''" "slash # rest"]
      hasSchemeRegex_exec_drive [of d rest]
    by simp_all
  show ?thesis
    using 1 2 3 4 by (simp add: getScheme_def maybeUri_def isAbsolute_def)
qed

theorem getScheme_iff_maybeUri_witness:
  "getScheme ''file:///a'' = Some ''file'' \<and> maybeUri ''file:///a''
   \<and> 2 \<le> length ''file'' \<and> ''file:///a'' = ''file'' @ CHR '':'' # ''///a''
   \<and> 2 \<le> length (takeWhile (\<lambda>c. c \<noteq> CHR '':'') ''file:///a'')
   \<and> getScheme ''C:/Users'' = None \<and> \<not> maybeUri ''C:/Users''"
proof -
  have g: "getScheme ''file:///a'' = Some ''file''"
    by (simp add: getScheme_def hasSchemeRegex_exec_def isLetter_def isLower_def
        isSchemeChar_def isWordChar_def isUpper_def isDigit_def)
  show ?thesis
    using g
      getScheme_iff_maybeUri
        [where p = "''file:///a''" and rest = "''Users''" and d = "CHR ''C''"
           and path_isAbsolute = "\<lambda>_. True"]
    by simp
qed

section \<open>Claims about the overlay prefix\<close>

lemma vslsSeparator_not_letter: "isVslsSeparator c \<Longrightarrow> \<not> isLetter c"
  by (auto simp: isVslsSeparator_def isLetter_def isUpper_def isLower_def)

lemma hasVslsPrefix_not_maybeUri: "hasVslsPrefix p \<Longrightarrow> \<not> maybeUri p"
  by (auto simp: hasVslsPrefix_def vslsHasPrefixRegex_test_def maybeUri_def
      hasSchemeRegex_exec_def vslsSeparator_not_letter split: list.splits)

lemma vslsPrefixed_shape: "\<exists>r. vslsPrefixed n = ''/~0/'' @ r"
  by (cases n) (auto simp: vslsPrefixed_def startsWithSlash_def)

lemma hasVslsPrefix_tilde0: "hasVslsPrefix (''/~0/'' @ r)"
  by (simp add: hasVslsPrefix_def vslsHasPrefixRegex_test_def isVslsSeparator_def
      isDigit_def vslsBoundary_def)

lemma hasVslsPrefix_vslsPrefixed: "hasVslsPrefix (vslsPrefixed n)"
  using vslsPrefixed_shape [of n] hasVslsPrefix_tilde0 by (metis)

lemma addVslsPrefixIfNeeded_prefixed:
  "hasVslsPrefix p \<Longrightarrow> addVslsPrefixIfNeeded w Uri_parse fsPath (Str p) = Some (Str p)"
  by (simp add: addVslsPrefixIfNeeded_def hasVslsPrefix_not_maybeUri)

lemma addVslsPrefixIfNeeded_plain:
  "\<not> maybeUri p \<Longrightarrow> \<not> hasVslsPrefix p \<Longrightarrow>
   addVslsPrefixIfNeeded w Uri_parse fsPath (Str p) = Some (Str (vslsPrefixed (normalizePath w p)))"
  by (simp add: addVslsPrefixIfNeeded_def)

text \<open>
  C7. A path string is a string that does not begin with a URI scheme; the
  specification calls a string with a leading scheme a URI, handled
  separately. For every path string, the result of \<open>addVslsPrefixIfNeeded\<close> is
  a string with the overlay prefix, and applying the function to that result
  gives it back unchanged; and a string that already has the overlay prefix is
  returned unchanged.
\<close>

theorem addVslsPrefixIfNeeded_roundtrip:
  "(hasVslsPrefix p \<longrightarrow> addVslsPrefixIfNeeded w Uri_parse fsPath (Str p) = Some (Str p))
   \<and> (\<not> maybeUri p \<longrightarrow>
        isPrefixedString (addVslsPrefixIfNeeded w Uri_parse fsPath (Str p))
        \<and> (\<exists>q. addVslsPrefixIfNeeded w Uri_parse fsPath (Str p) = Some (Str q)
               \<and> hasVslsPrefix q
               \<and> addVslsPrefixIfNeeded w Uri_parse fsPath (Str q) = Some (Str q)))"
proof -
  have again: "\<exists>q. addVslsPrefixIfNeeded w Uri_parse fsPath (Str p) = Some (Str q)
             \<and> hasVslsPrefix q
             \<and> addVslsPrefixIfNeeded w Uri_parse fsPath (Str q) = Some (Str q)"
    if n: "\<not> maybeUri p"
  proof (cases "hasVslsPrefix p")
    case True
    then show ?thesis
      using addVslsPrefixIfNeeded_prefixed by blast
  next
    case False
    let ?q = "vslsPrefixed (normalizePath w p)"
    have "addVslsPrefixIfNeeded w Uri_parse fsPath (Str p) = Some (Str ?q)"
      using n False by (rule addVslsPrefixIfNeeded_plain)
    moreover have "hasVslsPrefix ?q"
      by (rule hasVslsPrefix_vslsPrefixed)
    ultimately show ?thesis
      using addVslsPrefixIfNeeded_prefixed by blast
  qed
  then have "isPrefixedString (addVslsPrefixIfNeeded w Uri_parse fsPath (Str p))"
    if "\<not> maybeUri p"
    using that by (auto simp: isPrefixedString_def)
  then show ?thesis
    using again addVslsPrefixIfNeeded_prefixed by blast
qed

theorem addVslsPrefixIfNeeded_roundtrip_witness:
  "\<not> maybeUri ''repo/src/'' \<and> \<not> hasVslsPrefix ''repo/src/''
   \<and> addVslsPrefixIfNeeded False (\<lambda>s. None) path (Str ''repo/src/'') = Some (Str ''/~0/repo/src'')
   \<and> isPrefixedString (addVslsPrefixIfNeeded False (\<lambda>s. None) path (Str ''repo/src/''))
   \<and> hasVslsPrefix ''/~0/repo/src''
   \<and> addVslsPrefixIfNeeded False (\<lambda>s. None) path (Str ''/~0/repo/src'') = Some (Str ''/~0/repo/src'')"
proof -
  have m: "\<not> maybeUri ''repo/src/''"
    by (simp add: maybeUri_def hasSchemeRegex_exec_def isLetter_def isLower_def isUpper_def
        isSchemeChar_def isWordChar_def isDigit_def)
  have v: "addVslsPrefixIfNeeded False (\<lambda>s. None) path (Str ''repo/src/'') = Some (Str ''/~0/repo/src'')"
    using m
    by (simp add: addVslsPrefixIfNeeded_def hasVslsPrefix_def vslsHasPrefixRegex_test_def
        isVslsSeparator_def vslsPrefixed_def normalizePath_def pathNormalizeReplace_def
        endsWithSlash_def startsWithSlash_def)
  have h: "\<not> hasVslsPrefix ''repo/src/''"
    by (simp add: hasVslsPrefix_def vslsHasPrefixRegex_test_def isVslsSeparator_def)
  show ?thesis
    using m v h addVslsPrefixIfNeeded_roundtrip [of "''repo/src/''" False "\<lambda>s. None" path]
    by auto
qed

section \<open>Claims about the common base\<close>
















section \<open>Claims about descendants and children\<close>

lemma isDescendent_unfold:
  "isDescendent w x base \<longleftrightarrow>
     sameOrigin x base \<and>
     (length (comparedPath w base) = 1 \<or>
      startsWith (comparedPath w x) (trailingSlash (comparedPath w base)))"
  by (cases x; cases base)
     (simp_all add: isDescendent_def sameOrigin_def comparedPath_def pathOf_def)

lemma leadingSlash_startsWithSlash [simp]: "startsWithSlash (leadingSlash s)"
  by (simp add: leadingSlash_def startsWithSlash_def)

lemma leadingSlash_root: "length (leadingSlash s) = 1 \<longleftrightarrow> leadingSlash s = ''/''"
proof -
  obtain r where "leadingSlash s = slash # r"
    using leadingSlash_startsWithSlash [of s]
    by (auto simp: startsWithSlash_def split: list.splits)
  then show ?thesis by simp
qed

lemma startsWith_append: "startsWith s pre \<longleftrightarrow> (\<exists>r. s = pre @ r)"
  unfolding startsWith_def
  by (metis append_eq_conv_conj append_take_drop_id)

lemmas eval_defs = normalizePath_def pathNormalizeReplace_def endsWithSlash_def
  startsWithSlash_def leadingSlash_def trailingSlash_def startsWith_def comparedPath_def
  sameOrigin_def

lemma startsWith_trailingSlash:
  "startsWith p (trailingSlash b) \<longleftrightarrow>
     (\<exists>r. p = b @ r \<and> (endsWithSlash b \<or> startsWithSlash r))"
proof (cases "endsWithSlash b")
  case True
  then show ?thesis
    by (simp add: trailingSlash_def startsWith_append)
next
  case False
  have "(\<exists>r. p = (b @ [slash]) @ r) \<longleftrightarrow> (\<exists>r. p = b @ r \<and> startsWithSlash r)"
  proof
    assume "\<exists>r. p = (b @ [slash]) @ r"
    then obtain r where "p = b @ (slash # r)" by auto
    moreover have "startsWithSlash (slash # r)" by (simp add: startsWithSlash_def)
    ultimately show "\<exists>r. p = b @ r \<and> startsWithSlash r" by blast
  next
    assume "\<exists>r. p = b @ r \<and> startsWithSlash r"
    then obtain r where p: "p = b @ r" and s: "startsWithSlash r" by blast
    from s obtain t where "r = slash # t"
      by (auto simp: startsWithSlash_def split: list.splits)
    then show "\<exists>r. p = (b @ [slash]) @ r" using p by simp
  qed
  then show ?thesis
    using False by (simp add: trailingSlash_def startsWith_append)
qed

text \<open>
  C4, as stated: the path is a descendant exactly when the base is the root or
  the path starts with the base followed by a separator (and, for two URIs,
  scheme and authority agree). It fails for a base that ends in a separator,
  because the code then asks for no further separator after it; and it fails
  for a URI base whose path is a single character other than the slash,
  because the root is recognized by its length.
\<close>

theorem isDescendent_uri_counterexample:
  "isDescendent False
      (Uri \<lparr>scheme = ''file'', authority = [], path = ''/repo/src''\<rparr>)
      (Uri \<lparr>scheme = ''file'', authority = [], path = ''/repo/''\<rparr>)
   \<noteq> isDescendent_spec False
      (Uri \<lparr>scheme = ''file'', authority = [], path = ''/repo/src''\<rparr>)
      (Uri \<lparr>scheme = ''file'', authority = [], path = ''/repo/''\<rparr>)
   \<and> isDescendent False (Str ''/foo'')
        (Uri \<lparr>scheme = ''untitled'', authority = [], path = ''x''\<rparr>)
      \<noteq> isDescendent_spec False (Str ''/foo'')
        (Uri \<lparr>scheme = ''untitled'', authority = [], path = ''x''\<rparr>)"
  by (simp add: isDescendent_def isDescendent_spec_def eval_defs)

text \<open>
  C4, amended: a URI base whose path is a single character other than the
  slash is left aside. For every other base, with string arguments normalized
  and given a leading slash and URI arguments read through their path, the
  path is a descendant exactly when the base is the root \<open>/\<close>, or the path
  starts with the base and a separator comes next, where the separator that
  ends the base counts when the base already ends in one; for two URIs,
  scheme and authority must agree as well. A string base is never left aside.
  Whenever the compared base is the root, or has neither length one nor a
  trailing separator, this is the statement of the specification.
\<close>

theorem isDescendent_iff:
  "((\<exists>b. base = Str b) \<or> comparedPath w base = ''/'' \<or> length (comparedPath w base) \<noteq> 1 \<longrightarrow>
      (isDescendent w x base \<longleftrightarrow>
         sameOrigin x base \<and>
         (comparedPath w base = ''/'' \<or>
          (\<exists>r. comparedPath w x = comparedPath w base @ r \<and>
               (endsWithSlash (comparedPath w base) \<or> startsWithSlash r)))))
   \<and> (comparedPath w base = ''/'' \<or>
        (\<not> endsWithSlash (comparedPath w base) \<and> length (comparedPath w base) \<noteq> 1) \<longrightarrow>
        isDescendent w x base = isDescendent_spec w x base)"
proof (intro conjI impI)
  assume h: "(\<exists>b. base = Str b) \<or> comparedPath w base = ''/'' \<or> length (comparedPath w base) \<noteq> 1"
  have root: "length (comparedPath w base) = 1 \<longleftrightarrow> comparedPath w base = ''/''"
  proof (cases "\<exists>b. base = Str b")
    case True
    then obtain b where "base = Str b" ..
    then show ?thesis
      using leadingSlash_root [of "normalizePath w b"] by (simp add: comparedPath_def)
  next
    case False
    then show ?thesis using h by auto
  qed
  show "isDescendent w x base \<longleftrightarrow>
         sameOrigin x base \<and>
         (comparedPath w base = ''/'' \<or>
          (\<exists>r. comparedPath w x = comparedPath w base @ r \<and>
               (endsWithSlash (comparedPath w base) \<or> startsWithSlash r)))"
    unfolding isDescendent_unfold root startsWith_trailingSlash ..
next
  assume "comparedPath w base = ''/'' \<or>
        (\<not> endsWithSlash (comparedPath w base) \<and> length (comparedPath w base) \<noteq> 1)"
  then show "isDescendent w x base = isDescendent_spec w x base"
    by (auto simp: isDescendent_unfold isDescendent_spec_def trailingSlash_def)
qed

theorem isDescendent_iff_witness:
  "isDescendent False (Str ''/repo/src/a.ts'') (Str ''/repo'')
   \<and> isDescendent_spec False (Str ''/repo/src/a.ts'') (Str ''/repo'')
   \<and> \<not> isDescendent False (Str ''/repo2/a'') (Str ''/repo'')
   \<and> isDescendent False (Str ''anything'') (Str ''/'')
   \<and> \<not> isDescendent False
         (Uri \<lparr>scheme = ''file'', authority = [], path = ''/repo/src''\<rparr>)
         (Uri \<lparr>scheme = ''vsls'', authority = [], path = ''/repo''\<rparr>)
   \<and> isDescendent False
         (Uri \<lparr>scheme = ''file'', authority = [], path = ''/repo/src''\<rparr>)
         (Uri \<lparr>scheme = ''file'', authority = [], path = ''/repo/''\<rparr>)"
proof -
  have c: "comparedPath False (Str ''/repo'') = ''/repo''"
    "comparedPath False (Str ''/'') = ''/''"
    "comparedPath False (Str ''/repo/src/a.ts'') = ''/repo'' @ ''/src/a.ts''"
    "comparedPath False (Str ''/repo2/a'') = ''/repo2/a''"
    "comparedPath False (Uri \<lparr>scheme = ''file'', authority = [], path = ''/repo/src''\<rparr>)
       = ''/repo/'' @ ''src''"
    "comparedPath False (Uri \<lparr>scheme = ''file'', authority = [], path = ''/repo/''\<rparr>) = ''/repo/''"
    "comparedPath False (Uri \<lparr>scheme = ''vsls'', authority = [], path = ''/repo''\<rparr>) = ''/repo''"
    by (simp_all add: eval_defs)
  have h: "\<not> endsWithSlash (comparedPath False (Str ''/repo''))
           \<and> length (comparedPath False (Str ''/repo'')) \<noteq> 1"
    unfolding c by (simp add: endsWithSlash_def)
  have e: "isDescendent_spec False (Str ''/repo/src/a.ts'') (Str ''/repo'')"
    by (simp add: isDescendent_spec_def eval_defs)
  have 1: "isDescendent False (Str ''/repo/src/a.ts'') (Str ''/repo'')"
    using isDescendent_iff [of "Str ''/repo''" False "Str ''/repo/src/a.ts''"] h e by blast
  have 2: "\<not> isDescendent False (Str ''/repo2/a'') (Str ''/repo'')"
    using isDescendent_iff [of "Str ''/repo''" False "Str ''/repo2/a''"]
    unfolding c by (simp add: startsWithSlash_def endsWithSlash_def)
  have 3: "isDescendent False (Str ''anything'') (Str ''/'')"
    using isDescendent_iff [of "Str ''/''" False "Str ''anything''"]
    unfolding c by (simp add: sameOrigin_def)
  have 4: "\<not> isDescendent False
         (Uri \<lparr>scheme = ''file'', authority = [], path = ''/repo/src''\<rparr>)
         (Uri \<lparr>scheme = ''vsls'', authority = [], path = ''/repo''\<rparr>)"
    using isDescendent_iff [of "Uri \<lparr>scheme = ''vsls'', authority = [], path = ''/repo''\<rparr>" False
        "Uri \<lparr>scheme = ''file'', authority = [], path = ''/repo/src''\<rparr>"]
    unfolding c by (simp add: sameOrigin_def)
  have 5: "isDescendent False
         (Uri \<lparr>scheme = ''file'', authority = [], path = ''/repo/src''\<rparr>)
         (Uri \<lparr>scheme = ''file'', authority = [], path = ''/repo/''\<rparr>)"
    using isDescendent_iff [of "Uri \<lparr>scheme = ''file'', authority = [], path = ''/repo/''\<rparr>" False
        "Uri \<lparr>scheme = ''file'', authority = [], path = ''/repo/src''\<rparr>"]
    unfolding c by (simp add: sameOrigin_def endsWithSlash_def)
  show ?thesis
    using 1 2 3 4 5 e by blast
qed

lemma split_not_Nil [simp]: "split d s \<noteq> []"
  by (induction s) auto

lemma length_split: "length (split d s) = Suc (count_list s d)"
  by (induction s) auto

lemma endsWithSlash_pathNormalizeReplace:
  "endsWithSlash s \<Longrightarrow> endsWithSlash (pathNormalizeReplace s)"
  by (auto simp: endsWithSlash_def pathNormalizeReplace_def last_map)

lemma normalizePath_length:
  "endsWithSlash s \<Longrightarrow> length (normalizePath w s) = length s - 1"
proof -
  assume e: "endsWithSlash s"
  then have "s \<noteq> []" by (simp add: endsWithSlash_def)
  moreover have "length (pathNormalizeReplace s) = length s"
    by (simp add: pathNormalizeReplace_def)
  ultimately show ?thesis
    using endsWithSlash_pathNormalizeReplace [OF e]
    by (cases w) (simp_all add: normalizePath_def Let_def)
qed

lemma normalized_no_trailing_slash:
  assumes "normalizePath w s = s"
  shows "\<not> endsWithSlash s"
proof
  assume e: "endsWithSlash s"
  then have "length (normalizePath w s) = length s - 1"
    by (rule normalizePath_length)
  moreover have "s \<noteq> []"
    using e by (simp add: endsWithSlash_def)
  ultimately show False
    using assms by (cases s) auto
qed

lemma leadingSlash_id: "startsWithSlash s \<Longrightarrow> leadingSlash s = s"
  by (simp add: leadingSlash_def)

lemma normalizePath_root: "normalizePath w ''/'' = []"
  by (cases w) (simp_all add: normalizePath_def pathNormalizeReplace_def endsWithSlash_def
      driveLetterNormalize_def driveAt_def)

lemma pathSegments_Cons:
  "r \<noteq> [] \<Longrightarrow> length (pathSegments (slash # r)) = Suc (count_list r slash)"
  by (simp add: pathSegments_def startsWithSlash_def length_split)

lemma isChild_Str:
  "startsWithSlash base \<Longrightarrow>
   isChild w (Str p) (Str base) \<longleftrightarrow>
     isDescendent w (Str p) (Str base) \<and> slash \<notin> set (beyond base p)"
  by (simp add: isChild_def leadingSlash_id pathOf_def length_split count_list_0_iff)

text \<open>
  On paths in normal form that begin with a slash, a path is a child exactly
  when it is a descendant and has one segment more than the base; the root
  may be the base.
\<close>

lemma isChild_normalized:
  assumes np: "normalizePath w p = p" and sp: "startsWithSlash p"
    and b: "base = ''/'' \<or> (normalizePath w base = base \<and> startsWithSlash base)"
  shows "isChild w (Str p) (Str base) \<longleftrightarrow>
           isDescendent w (Str p) (Str base) \<and> oneSegmentBeyond p base"
proof -
  from sp obtain r where p: "p = slash # r"
    by (auto simp: startsWithSlash_def split: list.splits)
  have r: "r \<noteq> []"
    using np p normalizePath_root [of w] by auto
  have segs_p: "length (pathSegments p) = Suc (count_list r slash)"
    unfolding p using r by (rule pathSegments_Cons)
  have sb: "startsWithSlash base"
    using b by (auto simp: startsWithSlash_def)
  show ?thesis
  proof (cases "base = ''/''")
    case True
    have "beyond base p = r"
      using True p by (simp add: beyond_def endsWithSlash_def)
    moreover have "length (pathSegments base) = 0"
      using True by (simp add: pathSegments_def startsWithSlash_def)
    ultimately show ?thesis
      using segs_p by (simp add: isChild_Str [OF sb] oneSegmentBeyond_def count_list_0_iff)
  next
    case False
    then have nb: "normalizePath w base = base"
      using b by simp
    have ne: "\<not> endsWithSlash base"
      using nb by (rule normalized_no_trailing_slash)
    from sb obtain c where base: "base = slash # c"
      by (auto simp: startsWithSlash_def split: list.splits)
    have c: "c \<noteq> []"
      using False base by simp
    have segs_b: "length (pathSegments base) = Suc (count_list c slash)"
      unfolding base using c by (rule pathSegments_Cons)
    have cb: "comparedPath w (Str base) = base" and cp: "comparedPath w (Str p) = p"
      using nb np sb sp by (simp_all add: comparedPath_def leadingSlash_id)
    have len: "length base \<noteq> 1"
      using base c by simp
    have desc: "isDescendent w (Str p) (Str base) \<longleftrightarrow> (\<exists>t. p = base @ [slash] @ t)"
      using cb cp len ne
      by (simp add: isDescendent_unfold sameOrigin_def trailingSlash_def startsWith_append)
    show ?thesis
    proof (cases "isDescendent w (Str p) (Str base)")
      case True
      then obtain t where t: "p = base @ [slash] @ t"
        using desc by blast
      have "beyond base p = t"
        using ne t by (simp add: beyond_def)
      moreover have "r = c @ [slash] @ t"
        using t p base by simp
      ultimately show ?thesis
        using True segs_p segs_b
        by (simp add: isChild_Str [OF sb] oneSegmentBeyond_def count_list_0_iff)
    next
      case False
      then show ?thesis
        by (simp add: isChild_Str [OF sb])
    qed
  qed
qed

lemma isChild_examples:
  "isChild False (Str ''/a/b/c'') (Str ''/a/b'')
   \<and> \<not> isChild False (Str ''/a/b/c/d'') (Str ''/a/b'')
   \<and> isChild False (Str ''/repo/src'') (Str ''/repo'')
   \<and> \<not> isChild False (Str ''/repo/src/a.ts'') (Str ''/repo'')
   \<and> isChild False (Str ''/repo'') (Str ''/'')"
proof -
  have n: "normalizePath False ''/a/b/c'' = ''/a/b/c''"
    "normalizePath False ''/a/b/c/d'' = ''/a/b/c/d''"
    "normalizePath False ''/repo/src'' = ''/repo/src''"
    "normalizePath False ''/repo/src/a.ts'' = ''/repo/src/a.ts''"
    "normalizePath False ''/repo'' = ''/repo''"
    "normalizePath False ''/a/b'' = ''/a/b''"
    by (simp_all add: eval_defs)
  have s: "startsWithSlash ''/a/b/c''" "startsWithSlash ''/a/b/c/d''"
    "startsWithSlash ''/repo/src''" "startsWithSlash ''/repo/src/a.ts''"
    "startsWithSlash ''/repo''" "startsWithSlash ''/a/b''"
    by (simp_all add: startsWithSlash_def)
  have d: "isDescendent False (Str ''/a/b/c'') (Str ''/a/b'')"
    "isDescendent False (Str ''/a/b/c/d'') (Str ''/a/b'')"
    "isDescendent False (Str ''/repo/src'') (Str ''/repo'')"
    "isDescendent False (Str ''/repo/src/a.ts'') (Str ''/repo'')"
    "isDescendent False (Str ''/repo'') (Str ''/'')"
    by (simp_all add: isDescendent_def pathOf_def eval_defs)
  have o: "oneSegmentBeyond ''/a/b/c'' ''/a/b''"
    "\<not> oneSegmentBeyond ''/a/b/c/d'' ''/a/b''"
    "oneSegmentBeyond ''/repo/src'' ''/repo''"
    "\<not> oneSegmentBeyond ''/repo/src/a.ts'' ''/repo''"
    "oneSegmentBeyond ''/repo'' ''/''"
    by (simp_all add: oneSegmentBeyond_def pathSegments_def startsWithSlash_def)
  show ?thesis
    using d o
      isChild_normalized [of False "''/a/b/c''" "''/a/b''"]
      isChild_normalized [of False "''/a/b/c/d''" "''/a/b''"]
      isChild_normalized [of False "''/repo/src''" "''/repo''"]
      isChild_normalized [of False "''/repo/src/a.ts''" "''/repo''"]
      isChild_normalized [of False "''/repo''" "''/''"]
      n s
    by simp
qed

text \<open>
  C3. A path is a child exactly when it is a descendant and has exactly one
  segment beyond the base. \<open>isChild\<close> misses this on a path that still has
  backslashes: \<open>isDescendent\<close> normalizes the path before it compares, while
  the count of segments reads the path as it was given and looks for forward
  slashes only. The path \<open>/a\b\c\<close> normalizes to \<open>/a/b/c\<close>, which lies two
  segments below \<open>/a\<close> and is not a child of it, and yet \<open>/a\b\c\<close> is reported
  as a child of \<open>/a\<close>, on either platform.
\<close>

theorem isChild_raw_path:
  "isChild w (Str (''/a'' @ [backslash] @ ''b'' @ [backslash] @ ''c'')) (Str ''/a'')
   \<and> isDescendent w (Str (''/a'' @ [backslash] @ ''b'' @ [backslash] @ ''c'')) (Str ''/a'')
   \<and> normalizePath w (''/a'' @ [backslash] @ ''b'' @ [backslash] @ ''c'') = ''/a/b/c''
   \<and> \<not> oneSegmentBeyond ''/a/b/c'' ''/a''
   \<and> \<not> isChild w (Str ''/a/b/c'') (Str ''/a'')"
  by (cases w)
     (simp_all add: isChild_def isDescendent_def beyond_def pathOf_def oneSegmentBeyond_def
       pathSegments_def driveLetterNormalize_def driveAt_def isUpper_def eval_defs)

section \<open>Claims about the proxy and the caches\<close>

text \<open>
  C5. Calling a member of the bound view with some arguments, in some state of
  the world, gives the result and the state that calling the same member of the
  sub-provider gives with the repository path put first: the method is applied
  once, to those arguments. A member that is no function is handed out as it
  is.
\<close>

theorem createSubProviderProxyForRepo_transparent:
  "invoke (createSubProviderProxyForRepo target rp m) args s
     = invoke (target m) (JString rp # args) s
   \<and> (\<forall>f. target m = Method f \<longrightarrow>
         createSubProviderProxyForRepo target rp m = Method (\<lambda>args. f (JString rp # args)))
   \<and> (\<forall>v. target m = Property v \<longrightarrow> createSubProviderProxyForRepo target rp m = Property v)
   \<and> (target m = Undefined \<longrightarrow> createSubProviderProxyForRepo target rp m = Undefined)"
  by (cases "target m") (simp_all add: createSubProviderProxyForRepo_def invoke_def)

theorem createSubProviderProxyForRepo_transparent_witness:
  "invoke
     (createSubProviderProxyForRepo
        (\<lambda>prop. if prop = ''getBranch'' then Method (\<lambda>args log. (length args, log @ [args]))
                 else if prop = ''limit'' then Property 7 else Undefined)
        ''/repo'' ''getBranch'')
     [JOther True, JOther False] []
   = (Returned 3, [[JString ''/repo'', JOther True, JOther False]])
   \<and> createSubProviderProxyForRepo
        (\<lambda>prop. if prop = ''getBranch'' then Method (\<lambda>args log. (length args, log @ [args]))
                 else if prop = ''limit'' then Property (7::nat) else Undefined)
        ''/repo'' ''limit''
      = (Property 7 :: (bool, nat, bool jsValue list list) member)
   \<and> createSubProviderProxyForRepo
        (\<lambda>prop. if prop = ''getBranch'' then Method (\<lambda>args log. (length args, log @ [args]))
                 else if prop = ''limit'' then Property (7::nat) else Undefined)
        ''/repo'' ''missing''
      = (Undefined :: (bool, nat, bool jsValue list list) member)"
  using
    createSubProviderProxyForRepo_transparent
      [of "\<lambda>prop. if prop = ''getBranch'' then Method (\<lambda>args log. (length args, log @ [args]))
                 else if prop = ''limit'' then Property (7::nat) else Undefined"
          "''/repo''" "''getBranch''" "[JOther True, JOther False]" "[]"]
    createSubProviderProxyForRepo_transparent
      [of "\<lambda>prop. if prop = ''getBranch'' then Method (\<lambda>args log. (length args, log @ [args]))
                 else if prop = ''limit'' then Property (7::nat) else Undefined"
          "''/repo''" "''limit''" "[]" "[]::bool jsValue list list"]
    createSubProviderProxyForRepo_transparent
      [of "\<lambda>prop. if prop = ''getBranch'' then Method (\<lambda>args log. (length args, log @ [args]))
                 else if prop = ''limit'' then Property (7::nat) else Undefined"
          "''/repo''" "''missing''" "[]" "[]::bool jsValue list list"]
  by (simp add: invoke_def)

lemma GitCaches_UNIV:
  "(UNIV :: GitCaches set) =
     {Branches, Contributors, Providers, Remotes, Stashes, Status, Tags, Worktrees}"
  by (auto intro: GitCaches.exhaust)

text \<open>
  C9. The cache keys are the eight names \<open>branches\<close>, \<open>contributors\<close>,
  \<open>providers\<close>, \<open>remotes\<close>, \<open>stashes\<close>, \<open>status\<close>, \<open>tags\<close> and \<open>worktrees\<close>, all
  different, and the repository-scoped keys are \<open>branches\<close> and \<open>remotes\<close>.
\<close>

theorem cache_key_vocabulary:
  "range cacheName =
     {''branches'', ''contributors'', ''providers'', ''remotes'', ''stashes'', ''status'',
      ''tags'', ''worktrees''}
   \<and> inj cacheName
   \<and> card (UNIV :: GitCaches set) = 8
   \<and> gitRepositoryCacheKeys = {Branches, Remotes}
   \<and> cacheName ` gitRepositoryCacheKeys = {''branches'', ''remotes''}"
proof -
  have r: "range cacheName =
     {''branches'', ''contributors'', ''providers'', ''remotes'', ''stashes'', ''status'',
      ''tags'', ''worktrees''}"
    unfolding GitCaches_UNIV by simp
  have i: "inj cacheName"
  proof (rule injI)
    fix x y assume "cacheName x = cacheName y"
    then show "x = y" by (cases x; cases y) simp_all
  qed
  have c: "card (UNIV :: GitCaches set) = 8"
    unfolding GitCaches_UNIV by simp
  show ?thesis
    using r i c by (simp add: gitRepositoryCacheKeys_def)
qed

end
